theory Spec2Isabelle
  imports Complex_Main "HOL-Library.Word"
begin

section \<open>The primitives toprf.c calls\<close>

text \<open>
  toprf.c works on 32-byte scalars and 32-byte encodings of Ristretto255 group elements
  through libsodium, which is not part of the repository. A scalar is modelled by the
  integer its 32 little-endian bytes denote, so \<open>iscalar[0]=index\<close> on a zeroed array is
  the value \<open>uint index\<close>. The order of the group (libsodium's constant L, a prime just
  above \<open>2 ^ 252\<close>) is the parameter \<open>q\<close> of every definition; the theorems assume of it
  what they need (that it is a prime above 255), and the counterexamples are evaluated
  at L itself.
\<close>

type_synonym scalar = int

definition ristretto255_L :: int where
  "ristretto255_L = 2 ^ 252 + 27742317777372353535851937790883648493"

definition is_prime :: "int \<Rightarrow> bool" where
  "is_prime p = (1 < p \<and> (\<forall>m\<in>{2..<p}. \<not> m dvd p))"

text \<open>
  Modelled from the spec: the scalar primitives of libsodium (section 6, "Ristretto255: scalar
  random, add, sub, mul, invert"), arithmetic in the scalar field. Each returns the
  canonical representative, whatever 32 bytes it is given. Inversion is the power
  \<open>q - 2\<close>, which libsodium computes by squaring and multiplying; on zero it yields
  zero, and its status is not looked at by toprf.c.
\<close>

definition crypto_core_ristretto255_scalar_mul :: "int \<Rightarrow> scalar \<Rightarrow> scalar \<Rightarrow> scalar" where
  "crypto_core_ristretto255_scalar_mul q x y = (x * y) mod q"

definition crypto_core_ristretto255_scalar_add :: "int \<Rightarrow> scalar \<Rightarrow> scalar \<Rightarrow> scalar" where
  "crypto_core_ristretto255_scalar_add q x y = (x + y) mod q"

definition crypto_core_ristretto255_scalar_sub :: "int \<Rightarrow> scalar \<Rightarrow> scalar \<Rightarrow> scalar" where
  "crypto_core_ristretto255_scalar_sub q x y = (x - y) mod q"

definition sq_mod :: "int \<Rightarrow> scalar \<Rightarrow> scalar" where
  "sq_mod q h = (h * h) mod q"

function pow_mod :: "int \<Rightarrow> scalar \<Rightarrow> int \<Rightarrow> scalar" where
  "pow_mod q x n =
     (if n \<le> 0 then 1 mod q
      else if even n then sq_mod q (pow_mod q x (n div 2))
      else (sq_mod q (pow_mod q x (n div 2)) * x) mod q)"
  by pat_completeness auto
termination
  by (relation "measure (\<lambda>(q, x, n). nat n)") auto

definition crypto_core_ristretto255_scalar_invert :: "int \<Rightarrow> scalar \<Rightarrow> scalar" where
  "crypto_core_ristretto255_scalar_invert q x = pow_mod q x (q - 2)"

text \<open>
  The random number generator is a tape of scalars and the number of scalars drawn so
  far: \<open>crypto_core_ristretto255_scalar_random\<close> returns the next one.
\<close>

record rng =
  tape :: "nat \<Rightarrow> scalar"
  drawn :: nat

definition crypto_core_ristretto255_scalar_random :: "rng \<Rightarrow> scalar \<times> rng" where
  "crypto_core_ristretto255_scalar_random r = (tape r (drawn r), r\<lparr>drawn := drawn r + 1\<rparr>)"

text \<open>
  Modelled from the spec: the group primitives of libsodium (section 6, "point add; ...
  variable-base scalar multiplication; encoding/decoding with validation"). The group is
  cyclic of order \<open>q\<close>, so an element is written by its discrete logarithm to a fixed
  generator: \<open>Point a\<close> with \<open>0 \<le> a < q\<close> is a valid encoding, \<open>Point 0\<close> is the
  identity (the 32 zero bytes that \<open>memset\<close> writes), and every other \<open>Point a\<close> stands
  for a byte string that does not decode. As libsodium documents them,
  \<open>crypto_core_ristretto255_add\<close> returns -1 and leaves the output alone when an operand
  does not decode, and \<open>crypto_scalarmult_ristretto255\<close> returns -1 when the point does
  not decode or when the product is the identity.
\<close>

datatype point = Point (dlog: int)

definition ristretto255_is_valid_point :: "int \<Rightarrow> point \<Rightarrow> bool" where
  "ristretto255_is_valid_point q p = (0 \<le> dlog p \<and> dlog p < q)"

definition crypto_core_ristretto255_add :: "int \<Rightarrow> point \<Rightarrow> point \<Rightarrow> point \<Rightarrow> int \<times> point" where
  "crypto_core_ristretto255_add q r p1 p2 =
     (if \<not> ristretto255_is_valid_point q p1 \<or> \<not> ristretto255_is_valid_point q p2 then (-1, r)
      else (0, Point ((dlog p1 + dlog p2) mod q)))"

definition crypto_scalarmult_ristretto255 :: "int \<Rightarrow> scalar \<Rightarrow> point \<Rightarrow> point option" where
  "crypto_scalarmult_ristretto255 q n p =
     (if \<not> ristretto255_is_valid_point q p then None
      else if (n * dlog p) mod q = 0 then None
      else Some (Point ((n * dlog p) mod q)))"

text \<open>
  Modelled from the spec: oprf_Evaluate (oprf.c is not among the source files). Section 4.2:
  "Inputs: scalar key k, a group element \<alpha>. Output \<beta> = \<alpha>^k. Fails if \<alpha> is not a valid
  group element." It takes the output buffer and returns the status with the buffer.
\<close>

definition oprf_Evaluate :: "int \<Rightarrow> scalar \<Rightarrow> point \<Rightarrow> point \<Rightarrow> int \<times> point" where
  "oprf_Evaluate q k blinded Z =
     (if ristretto255_is_valid_point q blinded then (0, Point ((k * dlog blinded) mod q))
      else (-1, Z))"

section \<open>toprf.c\<close>

record TOPRF_Share =
  share_index :: "8 word"
  share_value :: scalar

record TOPRF_Part =
  part_index :: "8 word"
  part_value :: point

subsection \<open>coeff\<close>

text \<open>
  The loop of \<open>coeff\<close> over \<open>peers\<close>, on the pair \<open>(divident, divisor)\<close>; an entry equal
  to \<open>index\<close> is skipped by \<open>continue\<close>.
\<close>

fun coeff_loop :: "int \<Rightarrow> 8 word \<Rightarrow> scalar \<Rightarrow> 8 word list \<Rightarrow> scalar \<times> scalar \<Rightarrow> scalar \<times> scalar" where
  "coeff_loop q index iscalar [] (divident, divisor) = (divident, divisor)"
| "coeff_loop q index iscalar (p # peers) (divident, divisor) =
     (if p = index then coeff_loop q index iscalar peers (divident, divisor)
      else
        let tmp = uint p;
            divident' = crypto_core_ristretto255_scalar_mul q divident tmp;
            tmp' = crypto_core_ristretto255_scalar_sub q tmp iscalar;
            divisor' = crypto_core_ristretto255_scalar_mul q divisor tmp'
        in coeff_loop q index iscalar peers (divident', divisor'))"

definition coeff :: "int \<Rightarrow> 8 word \<Rightarrow> 8 word list \<Rightarrow> scalar" where
  "coeff q index peers =
     (let iscalar = uint index;
          (divident, divisor) = coeff_loop q index iscalar peers (1, 1);
          divisor' = crypto_core_ristretto255_scalar_invert q divisor
      in crypto_core_ristretto255_scalar_mul q divisor' divident)"

subsection \<open>toprf_create_shares\<close>

datatype error = OutOfBounds | BadArraySize

text \<open>The first loop: \<open>a[i]\<close> for \<open>i < threshold - 1\<close>, one random scalar each.\<close>

fun draw_coefficients :: "nat \<Rightarrow> rng \<Rightarrow> scalar list \<times> rng" where
  "draw_coefficients 0 r = ([], r)"
| "draw_coefficients (Suc k) r =
     (let (x, r') = crypto_core_ristretto255_scalar_random r;
          (xs, r'') = draw_coefficients k r'
      in (x # xs, r''))"

text \<open>
  The body of the loop over \<open>j\<close>: \<open>tmp = a[j] * x\<close>, then \<open>j\<close> more multiplications by
  \<open>x\<close>, then \<open>value += tmp\<close>.
\<close>

definition share_term :: "int \<Rightarrow> scalar \<Rightarrow> scalar \<Rightarrow> nat \<Rightarrow> scalar" where
  "share_term q aj x j =
     ((\<lambda>tmp. crypto_core_ristretto255_scalar_mul q tmp x) ^^ j)
        (crypto_core_ristretto255_scalar_mul q aj x)"

definition share_eval :: "int \<Rightarrow> scalar \<Rightarrow> scalar list \<Rightarrow> 8 word \<Rightarrow> scalar \<Rightarrow> scalar" where
  "share_eval q secret a threshold x =
     fold (\<lambda>j v. crypto_core_ristretto255_scalar_add q v (share_term q (a ! j) x j))
       [0..<nat (uint threshold - 1)] secret"

text \<open>
  A store to \<open>shares[k]\<close>, where \<open>k\<close> is the \<open>int\<close> that \<open>i-1\<close> is in C: outside the
  caller's array the C program has no defined behaviour, and the model stops with an
  error.
\<close>

definition array_set :: "'a list \<Rightarrow> int \<Rightarrow> 'a \<Rightarrow> error + 'a list" where
  "array_set xs k v =
     (if 0 \<le> k \<and> k < int (length xs) then Inr (xs[nat k := v]) else Inl OutOfBounds)"

text \<open>
  The loop \<open>for(i=1;i<=n;i++)\<close>, with \<open>i\<close> the \<open>uint8_t\<close> it is in the source: \<open>i + 1\<close>
  wraps from 255 to 0.
\<close>

function shares_loop ::
  "int \<Rightarrow> scalar \<Rightarrow> scalar list \<Rightarrow> 8 word \<Rightarrow> 8 word \<Rightarrow> 8 word \<Rightarrow> TOPRF_Share list
     \<Rightarrow> error + TOPRF_Share list" where
  "shares_loop q secret a threshold n i shares =
     (if i \<le> n then
        (case array_set shares (uint i - 1)
                \<lparr>share_index = i, share_value = share_eval q secret a threshold (uint i)\<rparr> of
           Inl e \<Rightarrow> Inl e
         | Inr shares' \<Rightarrow> shares_loop q secret a threshold n (i + 1) shares')
      else Inr shares)"
  by pat_completeness auto
termination
proof (relation "measure (\<lambda>(q, secret, a, threshold, n, i, shares). if i = 0 then 0 else 256 - unat i)")
  show "wf (measure (\<lambda>(q, secret, a, threshold, n, i, shares). if i = 0 then 0 else 256 - unat i))"
    by simp
next
  fix q :: int and secret :: scalar and a :: "scalar list" and threshold n i :: "8 word"
    and shares x2 :: "TOPRF_Share list"
  assume "i \<le> n"
    and ok: "array_set shares (uint i - 1)
          \<lparr>share_index = i, share_value = share_eval q secret a threshold (uint i)\<rparr> = Inr x2"
  from ok have "i \<noteq> 0"
    by (auto simp: array_set_def split: if_splits)
  moreover have "unat i < 256"
    using unsigned_less [of i, where ?'a = nat] by simp
  moreover have "i + 1 \<noteq> 0 \<Longrightarrow> unat (i + 1) = unat i + 1"
    using unatSuc [of i] by (simp add: add.commute)
  ultimately have "(if i + 1 = 0 then 0 else 256 - unat (i + 1)) < 256 - unat i"
    by (auto simp: unat_gt_0)
  with \<open>i \<noteq> 0\<close>
  show "((q, secret, a, threshold, n, i + 1, x2), (q, secret, a, threshold, n, i, shares))
        \<in> measure (\<lambda>(q, secret, a, threshold, n, i, shares). if i = 0 then 0 else 256 - unat i)"
    by simp
qed

text \<open>
  \<open>uint8_t a[threshold-1][32]\<close> is a variable-length array: with \<open>threshold = 0\<close> its
  size is negative, which C leaves undefined.
\<close>

definition toprf_create_shares ::
  "int \<Rightarrow> rng \<Rightarrow> scalar \<Rightarrow> 8 word \<Rightarrow> 8 word \<Rightarrow> TOPRF_Share list
     \<Rightarrow> error + TOPRF_Share list \<times> rng" where
  "toprf_create_shares q r secret n threshold shares =
     (if threshold = 0 then Inl BadArraySize
      else
        let (a, r') = draw_coefficients (nat (uint threshold - 1)) r
        in case shares_loop q secret a threshold n 1 shares of
             Inl e \<Rightarrow> Inl e
           | Inr shares' \<Rightarrow> Inr (shares', r'))"

subsection \<open>toprf_thresholdmult\<close>

text \<open>
  The second loop of \<open>toprf_thresholdmult\<close>, over the responses that are left, with
  \<open>indexes\<close> the index bytes of all of them and \<open>result\<close> the sum so far. The status of
  \<open>crypto_core_ristretto255_add\<close> is dropped, as in the source.
\<close>

fun thresholdmult_loop :: "int \<Rightarrow> 8 word list \<Rightarrow> TOPRF_Part list \<Rightarrow> point \<Rightarrow> int \<times> point" where
  "thresholdmult_loop q indexes [] result = (0, result)"
| "thresholdmult_loop q indexes (r # responses) result =
     (let lpoly = coeff q (part_index r) indexes
      in case crypto_scalarmult_ristretto255 q lpoly (part_value r) of
           None \<Rightarrow> (1, result)
         | Some gki \<Rightarrow>
             thresholdmult_loop q indexes responses
               (snd (crypto_core_ristretto255_add q result result gki)))"

definition toprf_thresholdmult :: "int \<Rightarrow> TOPRF_Part list \<Rightarrow> int \<times> point" where
  "toprf_thresholdmult q responses =
     (let result = Point 0;
          indexes = map part_index responses
      in thresholdmult_loop q indexes responses result)"

subsection \<open>toprf_Evaluate\<close>

text \<open>
  \<open>Z\<close> is the caller's output buffer, a \<open>TOPRF_Part\<close>; the function returns its status
  and the buffer as it leaves it. Only \<open>Z->value\<close> is handed to \<open>oprf_Evaluate\<close>.
\<close>

definition toprf_Evaluate ::
  "int \<Rightarrow> TOPRF_Share \<Rightarrow> point \<Rightarrow> 8 word \<Rightarrow> 8 word list \<Rightarrow> TOPRF_Part \<Rightarrow> int \<times> TOPRF_Part" where
  "toprf_Evaluate q k blinded self indexes Z =
     (let lpoly = coeff q self indexes;
          kl = crypto_core_ristretto255_scalar_mul q (share_value k) lpoly;
          (rc, v) = oprf_Evaluate q kl blinded (part_value Z);
          Z' = Z\<lparr>part_value := v\<rparr>
      in if rc \<noteq> 0 then (1, Z') else (0, Z'))"

subsection \<open>toprf_thresholdcombine\<close>

fun thresholdcombine_loop :: "int \<Rightarrow> TOPRF_Part list \<Rightarrow> point \<Rightarrow> point" where
  "thresholdcombine_loop q [] result = result"
| "thresholdcombine_loop q (r # responses) result =
     thresholdcombine_loop q responses
       (snd (crypto_core_ristretto255_add q result result (part_value r)))"

definition toprf_thresholdcombine :: "int \<Rightarrow> TOPRF_Part list \<Rightarrow> point" where
  "toprf_thresholdcombine q responses = thresholdcombine_loop q responses (Point 0)"

section \<open>tp-dkg.h\<close>

text \<open>
  Modelled from the spec: the size constants of libsodium that tp-dkg.h uses (sodium.h is not
  among the source files), with the values the wire format of sections 4.3 and 6 gives
  them: a 64-byte signature, a 32-byte hash, a 32-byte verification key, a 16-byte tag, a
  32-byte HMAC, a 32-byte scalar.
\<close>

definition crypto_sign_BYTES :: nat where "crypto_sign_BYTES = 64"
definition crypto_sign_PUBLICKEYBYTES :: nat where "crypto_sign_PUBLICKEYBYTES = 32"
definition crypto_generichash_BYTES :: nat where "crypto_generichash_BYTES = 32"
definition crypto_secretbox_xchacha20poly1305_MACBYTES :: nat where
  "crypto_secretbox_xchacha20poly1305_MACBYTES = 16"
definition crypto_auth_hmacsha256_BYTES :: nat where "crypto_auth_hmacsha256_BYTES = 32"
definition crypto_core_ristretto255_SCALARBYTES :: nat where
  "crypto_core_ristretto255_SCALARBYTES = 32"

definition tpdkg_sessionid_SIZE :: nat where "tpdkg_sessionid_SIZE = 32"
definition noise_xk_handshake3_SIZE :: nat where "noise_xk_handshake3_SIZE = 64"

text \<open>
  A struct declared \<open>__attribute((packed))\<close> is its fields in the order of the
  declaration, with no padding: a layout lists each field with its size in bytes, its
  \<open>sizeof\<close> is their sum, and a field starts where the one before it ends. The flexible
  array member \<open>data[]\<close> adds nothing to \<open>sizeof\<close>.
\<close>

type_synonym struct_layout = "(string \<times> nat) list"

definition sizeof_packed :: "struct_layout \<Rightarrow> nat" where
  "sizeof_packed fs = sum_list (map snd fs)"

fun offsets_packed :: "nat \<Rightarrow> struct_layout \<Rightarrow> struct_layout" where
  "offsets_packed off [] = []"
| "offsets_packed off ((name, sz) # fs) = (name, off) # offsets_packed (off + sz) fs"

definition TP_DKG_Message_layout :: struct_layout where
  "TP_DKG_Message_layout =
     [(''sig'', crypto_sign_BYTES), (''msgno'', 1), (''len'', 4), (''from'', 1), (''to'', 1),
      (''ts'', 8), (''sessionid'', tpdkg_sessionid_SIZE), (''data'', 0)]"

definition TOPRF_Share_layout :: struct_layout where
  "TOPRF_Share_layout = [(''index'', 1), (''value'', crypto_core_ristretto255_SCALARBYTES)]"

definition tpdkg_msg0_SIZE :: nat where
  "tpdkg_msg0_SIZE =
     sizeof_packed TP_DKG_Message_layout + crypto_generichash_BYTES + 2 + crypto_sign_PUBLICKEYBYTES"

definition tpdkg_msg8_SIZE :: nat where
  "tpdkg_msg8_SIZE =
     sizeof_packed TP_DKG_Message_layout + noise_xk_handshake3_SIZE + sizeof_packed TOPRF_Share_layout
       + crypto_secretbox_xchacha20poly1305_MACBYTES + crypto_auth_hmacsha256_BYTES"

text \<open>
  The message in memory, and so on the wire: the fields as bytes one after the other.
  Modelled from the spec: the byte order of \<open>len\<close> and \<open>ts\<close>, which C leaves to the
  target (section 6, "All multi-byte integers little-endian").
\<close>

record TP_DKG_Message =
  msg_sig :: "8 word list"
  msgno :: "8 word"
  len :: "32 word"
  msg_from :: "8 word"
  msg_to :: "8 word"
  ts :: "64 word"
  sessionid :: "8 word list"
  msg_data :: "8 word list"

fun le_bytes :: "nat \<Rightarrow> nat \<Rightarrow> 8 word list" where
  "le_bytes 0 v = []"
| "le_bytes (Suc k) v = of_nat (v mod 256) # le_bytes k (v div 256)"

definition TP_DKG_Message_bytes :: "TP_DKG_Message \<Rightarrow> 8 word list" where
  "TP_DKG_Message_bytes m =
     msg_sig m @ [msgno m] @ le_bytes 4 (unat (len m)) @ [msg_from m] @ [msg_to m]
       @ le_bytes 8 (unat (ts m)) @ sessionid m @ msg_data m"

section \<open>Notions of the specification\<close>

text \<open>
  The numerator and the denominator of the Lagrange coefficient of \<open>index\<close> among
  \<open>peers\<close>, as integers: the products of \<open>j\<close> and of \<open>j - index\<close> over the entries
  \<open>j\<close> of \<open>peers\<close> other than \<open>index\<close>.
\<close>

definition lagrange_num :: "8 word \<Rightarrow> 8 word list \<Rightarrow> int" where
  "lagrange_num index peers = prod_list (map uint (filter (\<lambda>p. p \<noteq> index) peers))"

definition lagrange_den :: "8 word \<Rightarrow> 8 word list \<Rightarrow> int" where
  "lagrange_den index peers =
     prod_list (map (\<lambda>p. uint p - uint index) (filter (\<lambda>p. p \<noteq> index) peers))"

text \<open>The discrete logarithms of the value fields that decode, in the order of the list.\<close>

definition valid_dlogs :: "int \<Rightarrow> TOPRF_Part list \<Rightarrow> int list" where
  "valid_dlogs q responses =
     map dlog (filter (ristretto255_is_valid_point q) (map part_value responses))"

text \<open>
  The Lagrange basis polynomial of the node \<open>i\<close> among the nodes \<open>S\<close>, evaluated at
  zero, in any field.
\<close>

definition lagrange_at_zero :: "'a::field set \<Rightarrow> 'a \<Rightarrow> 'a" where
  "lagrange_at_zero S i = (\<Prod>j\<in>S - {i}. j / (j - i))"

text \<open>
  The scalars that \<open>toprf_create_shares\<close> draws from the generator \<open>r\<close>, the
  coefficient of \<open>x ^ m\<close> in the polynomial it shares (the secret for \<open>m = 0\<close>, the
  drawn scalar \<open>a[m-1]\<close> otherwise), and the share the specification gives to the index
  \<open>j + 1\<close>.
\<close>

definition drawn_coefficients :: "rng \<Rightarrow> 8 word \<Rightarrow> scalar list" where
  "drawn_coefficients r threshold = map (\<lambda>j. tape r (drawn r + j)) [0..<unat threshold - 1]"

definition share_poly :: "scalar \<Rightarrow> scalar list \<Rightarrow> nat \<Rightarrow> int" where
  "share_poly secret a m = (if m = 0 then secret else a ! (m - 1))"

definition expected_share :: "int \<Rightarrow> scalar \<Rightarrow> scalar list \<Rightarrow> 8 word \<Rightarrow> nat \<Rightarrow> TOPRF_Share" where
  "expected_share q secret a threshold j =
     \<lparr>share_index = of_nat (Suc j), share_value = share_eval q secret a threshold (int (Suc j))\<rparr>"

section \<open>Arithmetic modulo a prime\<close>

lemma is_prime_coprime:
  assumes "is_prime p" "0 < k" "k < p"
  shows "coprime p k"
proof -
  let ?g = "gcd p k"
  have g: "?g dvd p" "?g dvd k" by simp_all
  have "0 < ?g" using assms by (simp add: gcd_pos_int)
  have "?g \<le> k" using g(2) assms(2) by (simp add: zdvd_imp_le)
  with assms have "?g < p" by linarith
  have "?g = 1"
  proof (rule ccontr)
    assume "?g \<noteq> 1"
    with \<open>0 < ?g\<close> have "2 \<le> ?g" by linarith
    with \<open>?g < p\<close> have "?g \<in> {2..<p}" by simp
    with assms(1) g(1) show False by (auto simp: is_prime_def)
  qed
  thus ?thesis by (simp add: coprime_iff_gcd_eq_1)
qed

lemma is_prime_coprime_iff:
  assumes "is_prime p"
  shows "coprime p a \<longleftrightarrow> \<not> p dvd a"
proof
  assume "coprime p a"
  show "\<not> p dvd a"
  proof
    assume "p dvd a"
    with \<open>coprime p a\<close> have "is_unit p" by (rule coprime_absorb_left [THEN iffD1, rotated]) 
    with assms show False by (auto simp: is_prime_def)
  qed
next
  assume nd: "\<not> p dvd a"
  have p: "0 < p" using assms by (simp add: is_prime_def)
  have "0 < a mod p" using nd p
    by (metis dvd_eq_mod_eq_0 less_le pos_mod_sign)
  moreover have "a mod p < p" using p by simp
  ultimately have "coprime p (a mod p)" using assms by (intro is_prime_coprime)
  thus "coprime p a"
    by (metis coprime_commute coprime_mod_left_iff p less_irrefl)
qed

lemma is_prime_dvd_mult:
  assumes "is_prime p" "p dvd a * b"
  shows "p dvd a \<or> p dvd b"
  using assms is_prime_coprime_iff [of p a] coprime_dvd_mult_right_iff [of p a b] by auto

lemma is_prime_dvd_choose:
  assumes "is_prime p" "0 < k" "k < nat p"
  shows "p dvd int (nat p choose k)"
proof -
  have p: "0 < p" using assms by (simp add: is_prime_def)
  have "k * (nat p choose k) = nat p * ((nat p - 1) choose (k - 1))"
    using assms(2) by (rule times_binomial_minus1_eq)
  hence "int k * int (nat p choose k) = p * int ((nat p - 1) choose (k - 1))"
    using p by (metis int_nat_eq less_le of_nat_mult)
  hence "p dvd int k * int (nat p choose k)" by simp
  moreover have "coprime p (int k)"
    using assms by (intro is_prime_coprime) auto
  ultimately show ?thesis by (simp add: coprime_dvd_mult_right_iff)
qed

lemma fermat_step:
  assumes "is_prime p"
  shows "((a + 1) ^ nat p) mod p = (a ^ nat p + 1) mod p"
proof -
  let ?P = "nat p"
  have p: "1 < p" using assms by (simp add: is_prime_def)
  hence P: "0 < ?P" "1 < ?P" by simp_all
  have split: "{..?P} = insert 0 (insert ?P {1..<?P})" using P by auto
  have "(a + 1) ^ ?P = (\<Sum>k\<le>?P. of_nat (?P choose k) * a ^ k * 1 ^ (?P - k))"
    by (rule binomial_ring)
  also have "\<dots> = (\<Sum>k\<le>?P. int (?P choose k) * a ^ k)" by simp
  also have "\<dots> = 1 + (a ^ ?P + (\<Sum>k\<in>{1..<?P}. int (?P choose k) * a ^ k))"
    using P by (simp add: split)
  finally have eq: "(a + 1) ^ ?P = (a ^ ?P + 1) + (\<Sum>k\<in>{1..<?P}. int (?P choose k) * a ^ k)"
    by simp
  have "p dvd (\<Sum>k\<in>{1..<?P}. int (?P choose k) * a ^ k)"
    by (rule dvd_sum) (simp add: is_prime_dvd_choose [OF assms])
  thus ?thesis unfolding eq by (metis mod_add_self2 dvd_def mod_mult_self2 mult.commute)
qed

lemma fermat_nat:
  assumes "is_prime p"
  shows "(int a ^ nat p) mod p = int a mod p"
proof (induction a)
  case 0
  have "0 < nat p" using assms by (simp add: is_prime_def)
  thus ?case by (simp add: zero_power)
next
  case (Suc a)
  have "(int (Suc a) ^ nat p) mod p = ((int a + 1) ^ nat p) mod p" by (simp add: add.commute)
  also have "\<dots> = (int a ^ nat p + 1) mod p" by (rule fermat_step [OF assms])
  also have "\<dots> = (int a ^ nat p mod p + 1) mod p" by (simp add: mod_add_left_eq)
  also have "\<dots> = (int a mod p + 1) mod p" by (simp only: Suc.IH)
  also have "\<dots> = (int a + 1) mod p" by (rule mod_add_left_eq)
  also have "\<dots> = int (Suc a) mod p" by (simp add: add.commute)
  finally show ?case .
qed

lemma fermat_little:
  assumes "is_prime p"
  shows "(a ^ nat p) mod p = a mod p"
proof -
  have p: "0 < p" using assms by (simp add: is_prime_def)
  have "0 \<le> a mod p" using p by simp
  then obtain b where b: "a mod p = int b" by (metis nonneg_int_cases)
  have "(a ^ nat p) mod p = ((a mod p) ^ nat p) mod p" by (simp add: power_mod)
  also have "\<dots> = (a mod p) mod p" unfolding b by (rule fermat_nat [OF assms])
  finally show ?thesis by simp
qed

declare pow_mod.simps [simp del]

lemma pow_mod_eq: "pow_mod q x n = (x ^ nat n) mod q"
proof (induction q x n rule: pow_mod.induct)
  case (1 q x n)
  show ?case
  proof (cases "n \<le> 0")
    case True
    thus ?thesis by (subst pow_mod.simps) simp
  next
    case False
    hence n: "0 < n" by simp
    define h where "h = x ^ nat (n div 2)"
    have sq: "sq_mod q (h mod q) = (h * h) mod q"
      unfolding sq_mod_def by (rule mod_mult_eq)
    show ?thesis
    proof (cases "even n")
      case True
      then obtain k where k: "n = 2 * k" by (auto elim: evenE)
      with n have k0: "0 \<le> k" by simp
      have "nat n = 2 * nat k" using k k0 by (simp add: nat_mult_distrib)
      moreover have "n div 2 = k" using k by simp
      ultimately have e: "x ^ nat n = h * h"
        unfolding h_def by (simp add: power_mult power2_eq_square [symmetric] mult.commute)
      have IH: "pow_mod q x (n div 2) = h mod q"
        unfolding h_def using 1(1) [OF False True] .
      have "pow_mod q x n = sq_mod q (h mod q)"
        using False True by (subst pow_mod.simps) (simp only: IH if_True if_False)
      also have "\<dots> = (x ^ nat n) mod q" by (simp only: sq e)
      finally show ?thesis .
    next
      case odd: False
      then obtain k where k: "n = 2 * k + 1" by (auto elim: oddE)
      with n have k0: "0 \<le> k" by simp
      have "nat n = Suc (2 * nat k)" using k k0 by (simp add: nat_add_distrib nat_mult_distrib)
      moreover have "n div 2 = k" using k by simp
      ultimately have e: "x ^ nat n = h * h * x"
        unfolding h_def by (simp add: power_mult power2_eq_square [symmetric] mult.commute)
      have IH: "pow_mod q x (n div 2) = h mod q"
        unfolding h_def using 1(2) [OF False odd] .
      have "pow_mod q x n = (sq_mod q (h mod q) * x) mod q"
        using False odd by (subst pow_mod.simps) (simp only: IH if_True if_False)
      also have "\<dots> = ((h * h) mod q * x) mod q" by (simp only: sq)
      also have "\<dots> = (h * h * x) mod q" by (rule mod_mult_left_eq)
      finally show ?thesis by (simp only: e)
    qed
  qed
qed

lemma scalar_invert_eq: "crypto_core_ristretto255_scalar_invert q x = (x ^ nat (q - 2)) mod q"
  unfolding crypto_core_ristretto255_scalar_invert_def by (rule pow_mod_eq)

lemma scalar_invert_inverse:
  assumes "is_prime p" "\<not> p dvd a"
  shows "(a * a ^ nat (p - 2)) mod p = 1"
proof -
  have p: "1 < p" using assms by (simp add: is_prime_def)
  have np: "nat p = Suc (Suc (nat (p - 2)))" using p by simp
  have "p dvd a ^ nat p - a"
    using fermat_little [OF assms(1), of a] by (simp add: mod_eq_dvd_iff)
  also have "a ^ nat p - a = a * (a * a ^ nat (p - 2) - 1)"
    by (simp add: np algebra_simps)
  finally have "p dvd a * a ^ nat (p - 2) - 1"
    using is_prime_dvd_mult [OF assms(1)] assms(2) by blast
  hence "(a * a ^ nat (p - 2)) mod p = 1 mod p" by (simp add: mod_eq_dvd_iff)
  thus ?thesis using p by simp
qed

section \<open>The Lagrange coefficient\<close>

lemmas scalar_defs =
  crypto_core_ristretto255_scalar_mul_def crypto_core_ristretto255_scalar_add_def
  crypto_core_ristretto255_scalar_sub_def scalar_invert_eq

lemma coeff_loop_mod:
  "coeff_loop q index (uint index) peers (d1, d2) = (a, b) \<Longrightarrow>
     a mod q = (d1 * prod_list (map uint (filter (\<lambda>p. p \<noteq> index) peers))) mod q \<and>
     b mod q = (d2 * prod_list (map (\<lambda>p. uint p - uint index) (filter (\<lambda>p. p \<noteq> index) peers))) mod q"
proof (induction peers arbitrary: d1 d2)
  case Nil
  then show ?case by simp
next
  case (Cons p peers)
  show ?case
  proof (cases "p = index")
    case True
    with Cons show ?thesis by simp
  next
    case False
    let ?d1 = "(d1 * uint p) mod q"
    let ?d2 = "(d2 * ((uint p - uint index) mod q)) mod q"
    from Cons.prems False have "coeff_loop q index (uint index) peers (?d1, ?d2) = (a, b)"
      by (simp add: scalar_defs Let_def)
    from Cons.IH [OF this] have
      A: "a mod q = (?d1 * prod_list (map uint (filter (\<lambda>p. p \<noteq> index) peers))) mod q" and
      B: "b mod q = (?d2 * prod_list (map (\<lambda>p. uint p - uint index) (filter (\<lambda>p. p \<noteq> index) peers))) mod q"
      by simp_all
    have "a mod q = (d1 * uint p * prod_list (map uint (filter (\<lambda>p. p \<noteq> index) peers))) mod q"
      unfolding A by (rule mod_mult_left_eq)
    moreover have "?d2 = (d2 * (uint p - uint index)) mod q" by (rule mod_mult_right_eq)
    hence "b mod q = (d2 * (uint p - uint index) * prod_list (map (\<lambda>p. uint p - uint index) (filter (\<lambda>p. p \<noteq> index) peers))) mod q"
      unfolding B by (simp add: mod_mult_left_eq)
    ultimately show ?thesis using False by (simp add: mult.assoc)
  qed
qed

lemma mod_pow_mult: "((x mod q) ^ n * (y mod q)) mod q = (x ^ n * y) mod (q::int)"
proof -
  have "((x mod q) ^ n * (y mod q)) mod q = (((x mod q) ^ n) mod q * (y mod q)) mod q"
    by (simp only: mod_mult_left_eq)
  also have "\<dots> = ((x ^ n) mod q * (y mod q)) mod q"
    by (simp only: power_mod)
  also have "\<dots> = (x ^ n * y) mod q"
    by (rule mod_mult_eq)
  finally show ?thesis .
qed

lemma coeff_eq:
  "coeff q index peers = (lagrange_den index peers ^ nat (q - 2) * lagrange_num index peers) mod q"
proof -
  obtain a b where ab: "coeff_loop q index (uint index) peers (1, 1) = (a, b)"
    by (cases "coeff_loop q index (uint index) peers (1, 1)")
  from coeff_loop_mod [OF ab] have
    A: "a mod q = lagrange_num index peers mod q" and
    B: "b mod q = lagrange_den index peers mod q"
    by (simp_all add: lagrange_num_def lagrange_den_def)
  have "coeff q index peers = ((b ^ nat (q - 2)) mod q * a) mod q"
    by (simp add: coeff_def ab scalar_defs)
  also have "\<dots> = (b ^ nat (q - 2) * a) mod q"
    by (rule mod_mult_left_eq)
  also have "\<dots> = ((b mod q) ^ nat (q - 2) * (a mod q)) mod q"
    by (rule mod_pow_mult [symmetric])
  also have "\<dots> = ((lagrange_den index peers mod q) ^ nat (q - 2) * (lagrange_num index peers mod q)) mod q"
    by (simp only: A B)
  also have "\<dots> = (lagrange_den index peers ^ nat (q - 2) * lagrange_num index peers) mod q"
    by (rule mod_pow_mult)
  finally show ?thesis .
qed

lemma coeff_prod_list:
  "coeff q index peers =
     prod_list (map (\<lambda>j. uint j * crypto_core_ristretto255_scalar_invert q (uint j - uint index))
                  (filter (\<lambda>p. p \<noteq> index) peers)) mod q"
proof -
  have gen: "(prod_list (map (\<lambda>j. uint j - uint index) xs) ^ n * prod_list (map uint xs)) mod q =
        prod_list (map (\<lambda>j. uint j * (((uint j - uint index) ^ n) mod q)) xs) mod q"
    for xs :: "8 word list" and n
  proof (induction xs)
    case Nil
    show ?case by simp
  next
    case (Cons x xs)
    let ?D = "prod_list (map (\<lambda>j. uint j - uint index) xs)"
    let ?N = "prod_list (map uint xs)"
    let ?R = "prod_list (map (\<lambda>j. uint j * (((uint j - uint index) ^ n) mod q)) xs)"
    have "(((uint x - uint index) * ?D) ^ n * (uint x * ?N)) mod q =
          ((uint x * (uint x - uint index) ^ n) * (?D ^ n * ?N)) mod q"
      by (simp add: power_mult_distrib mult_ac)
    also have "\<dots> = ((uint x * (uint x - uint index) ^ n) * ((?D ^ n * ?N) mod q)) mod q"
      by (simp only: mod_mult_right_eq)
    also have "\<dots> = ((uint x * (uint x - uint index) ^ n) * (?R mod q)) mod q"
      by (simp only: Cons.IH)
    also have "\<dots> = ((uint x * (uint x - uint index) ^ n) * ?R) mod q"
      by (simp only: mod_mult_right_eq)
    also have "\<dots> = ((uint x * (uint x - uint index) ^ n) mod q * ?R) mod q"
      by (simp only: mod_mult_left_eq)
    also have "(uint x * (uint x - uint index) ^ n) mod q = (uint x * ((uint x - uint index) ^ n mod q)) mod q"
      by (simp only: mod_mult_right_eq)
    also have "(\<dots> * ?R) mod q = ((uint x * ((uint x - uint index) ^ n mod q)) * ?R) mod q"
      by (simp only: mod_mult_left_eq)
    finally show ?case by simp
  qed
  show ?thesis
    unfolding coeff_eq lagrange_den_def lagrange_num_def scalar_invert_eq
    by (rule gen)
qed

lemma coeff_range: "0 < q \<Longrightarrow> 0 \<le> coeff q index peers \<and> coeff q index peers < q"
  by (simp add: coeff_eq)

lemma uint8_diff_not_dvd:
  fixes i j :: "8 word"
  assumes "255 < q" "i \<noteq> j"
  shows "\<not> q dvd (uint j - uint i)"
proof
  assume d: "q dvd (uint j - uint i)"
  have "uint i < 256" "uint j < 256" "0 \<le> uint i" "0 \<le> uint j"
    using uint_lt2p [of i] uint_lt2p [of j] by simp_all
  hence "\<bar>uint j - uint i\<bar> < q" using assms(1) by linarith
  with d have "uint j - uint i = 0" using dvd_imp_le_int [of "uint j - uint i" q] by fastforce
  hence "uint j = uint i" by simp
  hence "j = i" by (rule word_uint_eqI)
  with assms(2) show False by simp
qed

lemma invert_is_inverse:
  fixes i j :: "8 word"
  assumes "is_prime q" "255 < q" "j \<noteq> i"
  shows "((uint j - uint i) * crypto_core_ristretto255_scalar_invert q (uint j - uint i)) mod q = 1"
proof -
  have nd: "\<not> q dvd (uint j - uint i)" using assms(2,3) by (intro uint8_diff_not_dvd) auto
  have "((uint j - uint i) * crypto_core_ristretto255_scalar_invert q (uint j - uint i)) mod q
      = ((uint j - uint i) * (uint j - uint i) ^ nat (q - 2)) mod q"
    unfolding scalar_invert_eq by (rule mod_mult_right_eq)
  thus ?thesis using scalar_invert_inverse [OF assms(1) nd] by simp
qed

section \<open>Lagrange interpolation at zero\<close>

lemma lag_insert:
  assumes "finite T" "a \<notin> T" "i \<in> T"
  shows "lagrange_at_zero (insert a T) i = lagrange_at_zero T i * (a / (a - i))"
proof -
  have "insert a T - {i} = insert a (T - {i})" using assms by auto
  moreover have "a \<notin> T - {i}" using assms by simp
  ultimately show ?thesis
    using assms(1) by (simp add: lagrange_at_zero_def mult.commute)
qed

lemma lag_insert_self:
  assumes "a \<notin> T"
  shows "lagrange_at_zero (insert a T) a = (\<Prod>j\<in>T. j / (j - a))"
proof -
  have "insert a T - {a} = T" using assms by auto
  thus ?thesis by (simp add: lagrange_at_zero_def)
qed

lemma lag_factor_rule:
  assumes "finite T" "a \<notin> T"
  shows "(\<Sum>i\<in>insert a T. (i - a) * h i * lagrange_at_zero (insert a T) i) =
           - a * (\<Sum>i\<in>T. h i * lagrange_at_zero T i)"
proof -
  have "(\<Sum>i\<in>insert a T. (i - a) * h i * lagrange_at_zero (insert a T) i) =
        (\<Sum>i\<in>T. (i - a) * h i * lagrange_at_zero (insert a T) i)"
    using assms by simp
  also have "\<dots> = (\<Sum>i\<in>T. - a * (h i * lagrange_at_zero T i))"
  proof (rule sum.cong [OF refl])
    fix i assume i: "i \<in> T"
    with assms have ne: "a - i \<noteq> 0" by auto
    have "(i - a) * (a / (a - i)) = - a"
      using ne by (simp add: field_simps)
    hence "(i - a) * h i * (lagrange_at_zero T i * (a / (a - i))) = - a * (h i * lagrange_at_zero T i)"
      by (metis (no_types, lifting) mult.assoc mult.commute)
    thus "(i - a) * h i * lagrange_at_zero (insert a T) i = - a * (h i * lagrange_at_zero T i)"
      by (simp only: lag_insert [OF assms i])
  qed
  also have "\<dots> = - a * (\<Sum>i\<in>T. h i * lagrange_at_zero T i)"
    by (simp only: sum_distrib_left)
  finally show ?thesis .
qed

lemma lag_sum_one:
  assumes "finite S" "S \<noteq> {}"
  shows "(\<Sum>i\<in>S. lagrange_at_zero S i) = 1"
  using assms
proof (induction "card S" arbitrary: S rule: less_induct)
  case less
  show ?case
  proof (cases "card S = 1")
    case True
    then obtain a where "S = {a}" by (auto simp: card_1_singleton_iff)
    thus ?thesis by (simp add: lagrange_at_zero_def)
  next
    case False
    with less.prems have c2: "2 \<le> card S"
      by (metis One_nat_def Suc_1 Suc_leI card_gt_0_iff le_neq_implies_less)
    then obtain a b where ab: "a \<in> S" "b \<in> S" "a \<noteq> b"
      by (metis card_le_Suc0_iff_eq less.prems(1) not_less_eq_eq numeral_2_eq_2)
    define U where "U = S - {a, b}"
    have U: "finite U" "a \<notin> U" "b \<notin> U" using less.prems by (auto simp: U_def)
    have S: "S = insert a (insert b U)" using ab by (auto simp: U_def)
    let ?Sa = "insert b U" and ?Sb = "insert a U"
    have cS: "card S = Suc (Suc (card U))" using U ab by (simp add: S)
    have "(\<Sum>i\<in>?Sa. lagrange_at_zero ?Sa i) = 1"
      using U cS by (intro less.hyps) simp_all
    hence A: "lagrange_at_zero ?Sa b + (\<Sum>i\<in>U. lagrange_at_zero ?Sa i) = 1"
      using U by simp
    have "(\<Sum>i\<in>?Sb. lagrange_at_zero ?Sb i) = 1"
      using U cS by (intro less.hyps) simp_all
    hence B: "lagrange_at_zero ?Sb a + (\<Sum>i\<in>U. lagrange_at_zero ?Sb i) = 1"
      using U by simp
    have ba: "b - a \<noteq> 0" "a - b \<noteq> 0" using ab by simp_all
    have Sa_a: "lagrange_at_zero S a = b / (b - a) * lagrange_at_zero ?Sb a"
    proof -
      have "S - {a} = insert b U" using ab U by (auto simp: S)
      thus ?thesis using U by (simp add: lagrange_at_zero_def lag_insert_self)
    qed
    have Sb_b: "lagrange_at_zero S b = a / (a - b) * lagrange_at_zero ?Sa b"
    proof -
      have "S - {b} = insert a U" using ab U by (auto simp: S)
      thus ?thesis using U by (simp add: lagrange_at_zero_def lag_insert_self)
    qed
    have step: "(b - a) * lagrange_at_zero S i =
                b * lagrange_at_zero ?Sb i - a * lagrange_at_zero ?Sa i" if i: "i \<in> U" for i
    proof -
      have ne: "a - i \<noteq> 0" "b - i \<noteq> 0" using i U by auto
      have 1: "lagrange_at_zero ?Sb i = lagrange_at_zero U i * (a / (a - i))"
        using U i by (intro lag_insert) auto
      have 2: "lagrange_at_zero ?Sa i = lagrange_at_zero U i * (b / (b - i))"
        using U i by (intro lag_insert) auto
      have "lagrange_at_zero S i = lagrange_at_zero ?Sa i * (a / (a - i))"
        unfolding S using U i ab by (intro lag_insert) auto
      hence 3: "lagrange_at_zero S i = lagrange_at_zero U i * (b / (b - i)) * (a / (a - i))"
        by (simp only: 2)
      show ?thesis
        unfolding 1 2 3 using ne by (simp add: field_simps)
    qed
    have "(\<Sum>i\<in>insert a (insert b U). g i) = g a + (g b + (\<Sum>i\<in>U. g i))" for g :: "'a \<Rightarrow> 'a"
      using U ab by simp
    from this [of "lagrange_at_zero S"]
    have split: "(\<Sum>i\<in>S. lagrange_at_zero S i) =
        lagrange_at_zero S a + (lagrange_at_zero S b + (\<Sum>i\<in>U. lagrange_at_zero S i))"
      unfolding S [symmetric] .
    have "(b - a) * (\<Sum>i\<in>S. lagrange_at_zero S i) =
          (b - a) * lagrange_at_zero S a + (b - a) * lagrange_at_zero S b
            + (\<Sum>i\<in>U. (b - a) * lagrange_at_zero S i)"
      unfolding split by (simp only: distrib_left sum_distrib_left add.assoc)
    also have "(b - a) * lagrange_at_zero S a = b * lagrange_at_zero ?Sb a"
      unfolding Sa_a using ba by simp
    also have "(b - a) * lagrange_at_zero S b = - a * lagrange_at_zero ?Sa b"
      unfolding Sb_b using ba by (simp add: field_simps)
    also have "(\<Sum>i\<in>U. (b - a) * lagrange_at_zero S i) =
               (\<Sum>i\<in>U. b * lagrange_at_zero ?Sb i - a * lagrange_at_zero ?Sa i)"
      by (rule sum.cong [OF refl]) (rule step)
    also have "\<dots> = b * (\<Sum>i\<in>U. lagrange_at_zero ?Sb i) - a * (\<Sum>i\<in>U. lagrange_at_zero ?Sa i)"
      by (simp add: sum_subtractf sum_distrib_left)
    finally have "(b - a) * (\<Sum>i\<in>S. lagrange_at_zero S i) =
        b * (lagrange_at_zero ?Sb a + (\<Sum>i\<in>U. lagrange_at_zero ?Sb i))
        - a * (lagrange_at_zero ?Sa b + (\<Sum>i\<in>U. lagrange_at_zero ?Sa i))"
      by (simp add: algebra_simps)
    hence "(b - a) * (\<Sum>i\<in>S. lagrange_at_zero S i) = (b - a) * 1"
      by (simp only: A B) simp
    thus ?thesis using ba by (simp only: mult_cancel_left) simp
  qed
qed

lemma lag_monomial_zero:
  assumes "finite S" "1 \<le> m" "m < card S"
  shows "(\<Sum>i\<in>S. i ^ m * lagrange_at_zero S i) = 0"
  using assms
proof (induction m arbitrary: S)
  case 0
  then show ?case by simp
next
  case (Suc m)
  from Suc.prems have "S \<noteq> {}" by auto
  then obtain a where a: "a \<in> S" by auto
  define T where "T = S - {a}"
  have T: "finite T" "a \<notin> T" "S = insert a T"
    using Suc.prems(1) a by (auto simp: T_def)
  have cT: "card S = Suc (card T)"
    using T by simp
  have Tne: "T \<noteq> {}" using cT Suc.prems by auto
  have split: "i ^ Suc m * lagrange_at_zero S i =
      (i - a) * i ^ m * lagrange_at_zero S i + a * (i ^ m * lagrange_at_zero S i)" for i
    by (simp add: algebra_simps)
  have "(\<Sum>i\<in>S. i ^ Suc m * lagrange_at_zero S i) =
      (\<Sum>i\<in>S. (i - a) * i ^ m * lagrange_at_zero S i) + a * (\<Sum>i\<in>S. i ^ m * lagrange_at_zero S i)"
    by (simp only: split sum.distrib sum_distrib_left)
  also have "(\<Sum>i\<in>S. (i - a) * i ^ m * lagrange_at_zero S i) =
      - a * (\<Sum>i\<in>T. i ^ m * lagrange_at_zero T i)"
    unfolding T(3) by (rule lag_factor_rule [OF T(1,2)])
  finally have eq: "(\<Sum>i\<in>S. i ^ Suc m * lagrange_at_zero S i) =
      a * ((\<Sum>i\<in>S. i ^ m * lagrange_at_zero S i) - (\<Sum>i\<in>T. i ^ m * lagrange_at_zero T i))"
    by (simp add: algebra_simps)
  show ?case
  proof (cases "m = 0")
    case True
    have "(\<Sum>i\<in>S. lagrange_at_zero S i) = 1" "(\<Sum>i\<in>T. lagrange_at_zero T i) = 1"
      using lag_sum_one Suc.prems(1) \<open>S \<noteq> {}\<close> T(1) Tne by blast+
    thus ?thesis unfolding eq using True by simp
  next
    case False
    hence m: "1 \<le> m" by simp
    have "(\<Sum>i\<in>S. i ^ m * lagrange_at_zero S i) = 0"
      using Suc.prems m by (intro Suc.IH) simp_all
    moreover have "(\<Sum>i\<in>T. i ^ m * lagrange_at_zero T i) = 0"
      using Suc.prems m T cT by (intro Suc.IH) simp_all
    ultimately show ?thesis unfolding eq by simp
  qed
qed

lemma lag_polynomial:
  assumes "finite S" "t \<le> card S" "0 < t"
  shows "(\<Sum>i\<in>S. (\<Sum>m<t. c m * i ^ m) * lagrange_at_zero S i) = c 0"
proof -
  have Sne: "S \<noteq> {}" using assms by auto
  have "(\<Sum>i\<in>S. (\<Sum>m<t. c m * i ^ m) * lagrange_at_zero S i) =
        (\<Sum>i\<in>S. \<Sum>m<t. c m * (i ^ m * lagrange_at_zero S i))"
    by (simp add: sum_distrib_right mult.assoc)
  also have "\<dots> = (\<Sum>m<t. \<Sum>i\<in>S. c m * (i ^ m * lagrange_at_zero S i))"
    by (rule sum.swap)
  also have "\<dots> = (\<Sum>m<t. c m * (\<Sum>i\<in>S. i ^ m * lagrange_at_zero S i))"
    by (simp only: sum_distrib_left)
  also have "\<dots> = (\<Sum>m<t. if m = 0 then c 0 else 0)"
  proof (rule sum.cong [OF refl])
    fix m assume "m \<in> {..<t}"
    hence m: "m < card S" using assms by simp
    show "c m * (\<Sum>i\<in>S. i ^ m * lagrange_at_zero S i) = (if m = 0 then c 0 else 0)"
    proof (cases "m = 0")
      case True
      thus ?thesis using lag_sum_one [OF assms(1) Sne] by simp
    next
      case False
      hence "(\<Sum>i\<in>S. i ^ m * lagrange_at_zero S i) = 0"
        using m assms(1) by (intro lag_monomial_zero) simp_all
      thus ?thesis using False by simp
    qed
  qed
  also have "\<dots> = c 0"
    using assms(3) by simp
  finally show ?thesis .
qed

lemma lag_polynomial_indexed:
  fixes x :: "'i \<Rightarrow> 'a::field"
  assumes "finite I" "inj_on x I" "0 < t" "t \<le> card I"
  shows "(\<Sum>i\<in>I. (\<Sum>m<t. c m * x i ^ m) * (\<Prod>j\<in>I - {i}. x j / (x j - x i))) = c 0"
proof -
  have card: "card (x ` I) = card I" using assms(2) by (rule card_image)
  have lag: "lagrange_at_zero (x ` I) (x i) = (\<Prod>j\<in>I - {i}. x j / (x j - x i))" if i: "i \<in> I" for i
  proof -
    have "x ` I - {x i} = x ` (I - {i})"
      using assms(2) i by (auto simp: inj_on_def)
    moreover have "inj_on x (I - {i})"
      using assms(2) by (rule inj_on_subset) auto
    ultimately show ?thesis
      by (simp add: lagrange_at_zero_def prod.reindex)
  qed
  have "(\<Sum>i\<in>I. (\<Sum>m<t. c m * x i ^ m) * (\<Prod>j\<in>I - {i}. x j / (x j - x i))) =
        (\<Sum>i\<in>I. (\<Sum>m<t. c m * x i ^ m) * lagrange_at_zero (x ` I) (x i))"
    by (rule sum.cong [OF refl]) (simp only: lag)
  also have "\<dots> = (\<Sum>y\<in>x ` I. (\<Sum>m<t. c m * y ^ m) * lagrange_at_zero (x ` I) y)"
    using assms(2) by (simp add: sum.reindex)
  also have "\<dots> = c 0"
    using assms by (intro lag_polynomial) (simp_all add: card)
  finally show ?thesis .
qed

lemma is_prime_not_dvd_prod:
  assumes "is_prime q" "finite A" "\<forall>x\<in>A. \<not> q dvd g x"
  shows "\<not> q dvd (\<Prod>x\<in>A. g x)"
  using assms(2,3)
proof (induction A rule: finite_induct)
  case empty
  have "1 < q" using assms(1) by (simp add: is_prime_def)
  thus ?case by (simp add: zdvd1_eq)
next
  case (insert a A)
  hence "\<not> q dvd g a" "\<not> q dvd (\<Prod>x\<in>A. g x)" by simp_all
  thus ?case using insert.hyps is_prime_dvd_mult [OF assms(1), of "g a" "\<Prod>x\<in>A. g x"] by auto
qed

lemma lagrange_mod:
  fixes W :: "8 word set" and c :: "nat \<Rightarrow> int"
  assumes p: "is_prime q" and big: "255 < q" and t: "0 < t" "t \<le> card W"
  shows "(\<Sum>w\<in>W. (\<Sum>m<t. c m * uint w ^ m) *
            ((\<Prod>v\<in>W - {w}. uint v) * (\<Prod>v\<in>W - {w}. uint v - uint w) ^ nat (q - 2))) mod q
         = c 0 mod q"
proof -
  define N where "N w = (\<Prod>v\<in>W - {w}. uint v)" for w
  define D where "D w = (\<Prod>v\<in>W - {w}. uint v - uint w)" for w
  define f where "f w = (\<Sum>m<t. c m * uint w ^ m)" for w :: "8 word"
  define E where "E w = (\<Prod>k\<in>W - {w}. D k)" for w
  define DD where "DD = (\<Prod>w\<in>W. D w)"
  define X where "X = (\<Sum>w\<in>W. f w * (N w * D w ^ nat (q - 2)))"
  define \<iota> :: "8 word \<Rightarrow> rat" where "\<iota> w = of_int (uint w)" for w
  have fin: "finite W" by simp
  have inj: "inj_on \<iota> W"
  proof (rule inj_onI)
    fix x y assume "\<iota> x = \<iota> y"
    hence "uint x = uint y" unfolding \<iota>_def by (simp only: of_int_eq_iff)
    thus "x = y" by (rule word_uint_eqI)
  qed
  have nd: "\<not> q dvd D w" for w
    unfolding D_def
  proof (rule is_prime_not_dvd_prod [OF p])
    show "finite (W - {w})" by simp
    show "\<forall>v\<in>W - {w}. \<not> q dvd uint v - uint w"
      using uint8_diff_not_dvd [OF big] by auto
  qed
  have D0: "D w \<noteq> 0" for w
    using nd [of w] by auto
  have DDE: "DD = D w * E w" if "w \<in> W" for w
    unfolding DD_def E_def using that by (simp add: prod.remove [OF fin])
  have ndDD: "\<not> q dvd DD"
    unfolding DD_def by (rule is_prime_not_dvd_prod [OF p fin]) (simp add: nd)
  \<comment> \<open>the identity over the rationals\<close>
  have "(\<Sum>w\<in>W. (\<Sum>m<t. of_int (c m) * \<iota> w ^ m) * (\<Prod>v\<in>W - {w}. \<iota> v / (\<iota> v - \<iota> w)))
        = (of_int (c 0) :: rat)"
    using fin inj t by (rule lag_polynomial_indexed)
  moreover have "(\<Sum>m<t. of_int (c m) * \<iota> w ^ m) = of_int (f w)" for w
    by (simp add: f_def \<iota>_def)
  moreover have "(\<Prod>v\<in>W - {w}. \<iota> v / (\<iota> v - \<iota> w)) = of_int (N w) / of_int (D w)" for w
    by (simp add: N_def D_def \<iota>_def prod_dividef)
  ultimately have Q: "(\<Sum>w\<in>W. of_int (f w) * (of_int (N w) / of_int (D w))) = (of_int (c 0) :: rat)"
    by simp
  have "(of_int (\<Sum>w\<in>W. f w * N w * E w) :: rat) =
        (\<Sum>w\<in>W. of_int (f w) * (of_int (N w) / of_int (D w)) * of_int DD)"
    unfolding of_int_sum
  proof (rule sum.cong [OF refl])
    fix w assume w: "w \<in> W"
    have "(of_int DD :: rat) = of_int (D w) * of_int (E w)"
      using DDE [OF w] by simp
    thus "(of_int (f w * N w * E w) :: rat) = of_int (f w) * (of_int (N w) / of_int (D w)) * of_int DD"
      using D0 [of w] by simp
  qed
  also have "\<dots> = (\<Sum>w\<in>W. of_int (f w) * (of_int (N w) / of_int (D w))) * of_int DD"
    by (simp only: sum_distrib_right)
  also have "\<dots> = of_int (c 0 * DD)"
    unfolding Q by simp
  finally have Z: "(\<Sum>w\<in>W. f w * N w * E w) = c 0 * DD"
    by (simp only: of_int_eq_iff)
  \<comment> \<open>modulo q\<close>
  have inv: "(D w * D w ^ nat (q - 2)) mod q = 1" for w
    by (rule scalar_invert_inverse [OF p nd])
  have "DD * X = (\<Sum>w\<in>W. f w * N w * E w * (D w * D w ^ nat (q - 2)))"
    unfolding X_def sum_distrib_left
  proof (rule sum.cong [OF refl])
    fix w assume w: "w \<in> W"
    show "DD * (f w * (N w * D w ^ nat (q - 2))) = f w * N w * E w * (D w * D w ^ nat (q - 2))"
      unfolding DDE [OF w] by (simp add: mult_ac)
  qed
  hence "(DD * X) mod q = (\<Sum>w\<in>W. (f w * N w * E w * (D w * D w ^ nat (q - 2))) mod q) mod q"
    by (simp only: mod_sum_eq)
  also have "\<dots> = (\<Sum>w\<in>W. (f w * N w * E w) mod q) mod q"
  proof -
    have "(f w * N w * E w * (D w * D w ^ nat (q - 2))) mod q = (f w * N w * E w) mod q" for w
    proof -
      have "(f w * N w * E w * (D w * D w ^ nat (q - 2))) mod q =
            (f w * N w * E w * ((D w * D w ^ nat (q - 2)) mod q)) mod q"
        by (simp only: mod_mult_right_eq)
      thus ?thesis by (simp only: inv mult_1_right)
    qed
    thus ?thesis by simp
  qed
  also have "\<dots> = (c 0 * DD) mod q"
    by (simp only: mod_sum_eq Z)
  finally have "q dvd DD * X - c 0 * DD"
    by (simp add: mod_eq_dvd_iff)
  hence "q dvd DD * (X - c 0)"
    by (simp add: algebra_simps)
  with ndDD have "q dvd X - c 0"
    using is_prime_dvd_mult [OF p] by blast
  hence "X mod q = c 0 mod q"
    by (simp add: mod_eq_dvd_iff)
  thus ?thesis
    unfolding X_def f_def N_def D_def .
qed

section \<open>The shares\<close>

lemma share_term_eq: "share_term q aj x j = (aj * x ^ Suc j) mod q"
proof (induction j)
  case 0
  show ?case by (simp add: share_term_def crypto_core_ristretto255_scalar_mul_def)
next
  case (Suc j)
  have "share_term q aj x (Suc j) = (share_term q aj x j * x) mod q"
    by (simp add: share_term_def crypto_core_ristretto255_scalar_mul_def)
  also have "\<dots> = ((aj * x ^ Suc j) mod q * x) mod q"
    by (simp only: Suc.IH)
  also have "\<dots> = (aj * x ^ Suc j * x) mod q"
    by (rule mod_mult_left_eq)
  finally show ?case by (simp add: mult_ac)
qed

lemma share_fold_eq:
  "0 < k \<Longrightarrow>
   fold (\<lambda>j v. crypto_core_ristretto255_scalar_add q v (share_term q (a ! j) x j)) [0..<k] v0 =
     (v0 + (\<Sum>j<k. a ! j * x ^ Suc j)) mod q"
proof (induction k)
  case 0
  then show ?case by simp
next
  case (Suc k)
  show ?case
  proof (cases "k = 0")
    case True
    thus ?thesis
      by (simp add: crypto_core_ristretto255_scalar_add_def share_term_eq mod_add_right_eq)
  next
    case False
    hence IH: "fold (\<lambda>j v. crypto_core_ristretto255_scalar_add q v (share_term q (a ! j) x j)) [0..<k] v0 =
        (v0 + (\<Sum>j<k. a ! j * x ^ Suc j)) mod q"
      using Suc.IH by simp
    have "fold (\<lambda>j v. crypto_core_ristretto255_scalar_add q v (share_term q (a ! j) x j)) [0..<Suc k] v0 =
        crypto_core_ristretto255_scalar_add q
          (fold (\<lambda>j v. crypto_core_ristretto255_scalar_add q v (share_term q (a ! j) x j)) [0..<k] v0)
          (share_term q (a ! k) x k)"
      by (simp only: upt_Suc_append [OF le0] fold_append o_apply fold.simps id_apply)
    also have "\<dots> = ((v0 + (\<Sum>j<k. a ! j * x ^ Suc j)) mod q + (a ! k * x ^ Suc k) mod q) mod q"
      unfolding IH by (simp only: crypto_core_ristretto255_scalar_add_def share_term_eq)
    also have "\<dots> = ((v0 + (\<Sum>j<k. a ! j * x ^ Suc j)) + a ! k * x ^ Suc k) mod q"
      by (rule mod_add_eq)
    finally show ?thesis by (simp add: add.assoc)
  qed
qed

lemma share_eval_poly:
  assumes "2 \<le> unat threshold"
  shows "share_eval q secret a threshold x =
           (\<Sum>m<unat threshold. share_poly secret a m * x ^ m) mod q"
proof -
  define k where "k = nat (uint threshold - 1)"
  have "uint threshold = int (unat threshold)" by simp
  hence k: "0 < k" "unat threshold = Suc k" using assms unfolding k_def by linarith+
  have "share_eval q secret a threshold x = (secret + (\<Sum>j<k. a ! j * x ^ Suc j)) mod q"
    unfolding share_eval_def k_def [symmetric] by (rule share_fold_eq [OF k(1)])
  also have "secret + (\<Sum>j<k. a ! j * x ^ Suc j) = (\<Sum>m<Suc k. share_poly secret a m * x ^ m)"
    unfolding sum.lessThan_Suc_shift by (simp add: share_poly_def)
  finally show ?thesis by (simp only: k(2))
qed

lemma draw_coefficients_eq:
  "draw_coefficients k r = (map (\<lambda>j. tape r (drawn r + j)) [0..<k], r\<lparr>drawn := drawn r + k\<rparr>)"
proof (induction k arbitrary: r)
  case 0
  show ?case by simp
next
  case (Suc k)
  have "map (\<lambda>j. tape r (drawn r + j)) [0..<Suc k] =
        tape r (drawn r) # map (\<lambda>j. tape r (Suc (drawn r + j))) [0..<k]"
    by (simp only: upt_conv_Cons [OF zero_less_Suc] list.map map_Suc_upt [symmetric] map_map o_def)
       simp
  thus ?case
    by (simp add: Suc.IH crypto_core_ristretto255_scalar_random_def del: upt_Suc)
qed

declare shares_loop.simps [simp del]

lemma shares_loop_255:
  "shares_loop q secret a threshold 255 i shares = Inl OutOfBounds"
proof (induction q secret a threshold "255 :: 8 word" i shares rule: shares_loop.induct)
  case (1 q secret a threshold i shares)
  have le: "i \<le> 255"
    using word_le_nat_alt [of i 255] unsigned_less [of i, where ?'a = nat] by simp
  show ?case
  proof (cases "array_set shares (uint i - 1)
                  \<lparr>share_index = i, share_value = share_eval q secret a threshold (uint i)\<rparr>")
    case (Inl e)
    hence "e = OutOfBounds" by (auto simp: array_set_def split: if_splits)
    with Inl le show ?thesis by (subst shares_loop.simps) simp
  next
    case (Inr shares')
    with 1 [OF le Inr] le show ?thesis by (subst shares_loop.simps) simp
  qed
qed

lemma shares_loop_ok:
  assumes "unat n < 255" "1 \<le> unat i" "unat i \<le> unat n + 1" "unat n \<le> length shares"
  shows "\<exists>shares'. shares_loop q secret a threshold n i shares = Inr shares' \<and>
           length shares' = length shares \<and>
           (\<forall>j<length shares. shares' ! j =
              (if unat i - 1 \<le> j \<and> j < unat n then expected_share q secret a threshold j
               else shares ! j))"
  using assms
proof (induction "unat n + 1 - unat i" arbitrary: i shares)
  case 0
  hence eq: "unat i = unat n + 1" by simp
  hence "\<not> i \<le> n" by (simp add: word_le_nat_alt)
  hence "shares_loop q secret a threshold n i shares = Inr shares"
    by (subst shares_loop.simps) simp
  thus ?case using eq by auto
next
  case (Suc d)
  hence le': "unat i \<le> unat n" by simp
  hence le: "i \<le> n" by (simp add: word_le_nat_alt)
  have ui: "uint i - 1 = int (unat i - 1)" using Suc.prems(2) by (simp add: of_nat_diff)
  have inb: "unat i - 1 < length shares" using le' Suc.prems by simp
  define s where "s = \<lparr>share_index = i, share_value = share_eval q secret a threshold (uint i)\<rparr>"
  have s: "s = expected_share q secret a threshold (unat i - 1)"
    using Suc.prems(2) by (simp add: s_def expected_share_def)
  have st: "array_set shares (uint i - 1) s = Inr (shares[unat i - 1 := s])"
    using inb by (simp add: array_set_def ui)
  have u1: "unat (i + 1) = unat i + 1"
  proof -
    have "unat i + unat (1 :: 8 word) < 2 ^ LENGTH(8)"
      using le' Suc.prems(1) by simp
    thus ?thesis by (simp only: unat_add_lem [THEN iffD1]) simp
  qed
  have step: "shares_loop q secret a threshold n i shares =
              shares_loop q secret a threshold n (i + 1) (shares[unat i - 1 := s])"
    using le st by (subst shares_loop.simps) (simp add: s_def)
  have "\<exists>shares'. shares_loop q secret a threshold n (i + 1) (shares[unat i - 1 := s]) = Inr shares' \<and>
           length shares' = length (shares[unat i - 1 := s]) \<and>
           (\<forall>j<length (shares[unat i - 1 := s]). shares' ! j =
              (if unat (i + 1) - 1 \<le> j \<and> j < unat n then expected_share q secret a threshold j
               else shares[unat i - 1 := s] ! j))"
    using Suc.hyps(2) Suc.prems le' u1 by (intro Suc.hyps(1)) simp_all
  then obtain shares' where r: "shares_loop q secret a threshold n (i + 1) (shares[unat i - 1 := s]) = Inr shares'"
    and l: "length shares' = length shares"
    and v: "\<And>j. j < length shares \<Longrightarrow> shares' ! j =
              (if unat i \<le> j \<and> j < unat n then expected_share q secret a threshold j
               else shares[unat i - 1 := s] ! j)"
    unfolding u1 by auto
  have "\<forall>j<length shares. shares' ! j =
              (if unat i - 1 \<le> j \<and> j < unat n then expected_share q secret a threshold j
               else shares ! j)"
  proof (intro allI impI)
    fix j assume j: "j < length shares"
    show "shares' ! j = (if unat i - 1 \<le> j \<and> j < unat n then expected_share q secret a threshold j
               else shares ! j)"
    proof (cases "j = unat i - 1")
      case True
      thus ?thesis using v [OF j] j le' Suc.prems(2) s by simp
    next
      case False
      thus ?thesis using v [OF j] j Suc.prems(2) by auto
    qed
  qed
  with r l step show ?case by simp
qed

lemma nat_uint_minus_1: "nat (uint (w :: 8 word) - 1) = unat w - 1"
proof -
  have "uint w = int (unat w)" by simp
  thus ?thesis by linarith
qed

lemma create_shares_255:
  "toprf_create_shares q r secret 255 threshold shares =
     Inl (if threshold = 0 then BadArraySize else OutOfBounds)"
  by (simp add: toprf_create_shares_def shares_loop_255 split: prod.splits)

lemma create_shares_ok:
  assumes "threshold \<noteq> 0" "unat n < 255" "length shares = unat n"
  shows "toprf_create_shares q r secret n threshold shares =
     Inr (map (expected_share q secret (drawn_coefficients r threshold) threshold) [0..<unat n],
          r\<lparr>drawn := drawn r + (unat threshold - 1)\<rparr>)"
proof -
  let ?a = "drawn_coefficients r threshold"
  have d: "draw_coefficients (nat (uint threshold - 1)) r = (?a, r\<lparr>drawn := drawn r + (unat threshold - 1)\<rparr>)"
    by (simp only: draw_coefficients_eq nat_uint_minus_1 drawn_coefficients_def)
  have "unat (1 :: 8 word) = 1" by simp
  then obtain shares' where r: "shares_loop q secret ?a threshold n 1 shares = Inr shares'"
    and l: "length shares' = length shares"
    and v: "\<forall>j<length shares. shares' ! j =
              (if unat (1 :: 8 word) - 1 \<le> j \<and> j < unat n then expected_share q secret ?a threshold j
               else shares ! j)"
    using shares_loop_ok [of n 1 shares q secret ?a threshold] assms(2,3) by auto
  have "shares' = map (expected_share q secret ?a threshold) [0..<unat n]"
    using l v assms(3) by (intro nth_equalityI) simp_all
  thus ?thesis
    using assms(1) r d by (simp add: toprf_create_shares_def)
qed

lemma shares_loop_short:
  assumes "unat n < 255" "1 \<le> unat i" "unat i \<le> unat n" "unat i - 1 \<le> length shares"
    "length shares < unat n"
  shows "shares_loop q secret a threshold n i shares = Inl OutOfBounds"
  using assms
proof (induction "length shares - (unat i - 1)" arbitrary: i shares)
  case 0
  moreover have "uint i = int (unat i)" by simp
  ultimately have "\<not> (uint i - 1 < int (length shares))" by linarith
  hence "array_set shares (uint i - 1)
           \<lparr>share_index = i, share_value = share_eval q secret a threshold (uint i)\<rparr> = Inl OutOfBounds"
    by (simp add: array_set_def)
  moreover have "i \<le> n" using "0.prems" by (simp add: word_le_nat_alt)
  ultimately show ?case by (subst shares_loop.simps) simp
next
  case (Suc d)
  hence inb: "unat i - 1 < length shares" by simp
  have le: "i \<le> n" using Suc.prems by (simp add: word_le_nat_alt)
  have ui: "uint i - 1 = int (unat i - 1)" using Suc.prems(2) by (simp add: of_nat_diff)
  define s where "s = \<lparr>share_index = i, share_value = share_eval q secret a threshold (uint i)\<rparr>"
  have st: "array_set shares (uint i - 1) s = Inr (shares[unat i - 1 := s])"
    using inb by (simp add: array_set_def ui)
  have u1: "unat (i + 1) = unat i + 1"
  proof -
    have "unat i + unat (1 :: 8 word) < 2 ^ LENGTH(8)"
      using Suc.prems by simp
    thus ?thesis by (simp only: unat_add_lem [THEN iffD1]) simp
  qed
  have step: "shares_loop q secret a threshold n i shares =
              shares_loop q secret a threshold n (i + 1) (shares[unat i - 1 := s])"
    using le st by (subst shares_loop.simps) (simp add: s_def)
  have "shares_loop q secret a threshold n (i + 1) (shares[unat i - 1 := s]) = Inl OutOfBounds"
  proof (rule Suc.hyps(1))
    show "d = length (shares[unat i - 1 := s]) - (unat (i + 1) - 1)"
      using Suc.hyps(2) Suc.prems(2) unfolding u1 by simp
    show "unat n < 255" by (rule Suc.prems(1))
    show "1 \<le> unat (i + 1)" unfolding u1 by simp
    show "unat (i + 1) \<le> unat n" unfolding u1 using inb Suc.prems(5) by simp
    show "unat (i + 1) - 1 \<le> length (shares[unat i - 1 := s])"
      unfolding u1 using inb Suc.prems(2) by simp
    show "length (shares[unat i - 1 := s]) < unat n" using Suc.prems(5) by simp
  qed
  with step show ?case by simp
qed

lemma create_shares_returns:
  assumes "toprf_create_shares q r secret n threshold shares0 = Inr (shares, r')"
  shows "threshold \<noteq> 0" "unat n < 255" "unat n \<le> length shares0"
    and "length shares = length shares0"
    and "r' = r\<lparr>drawn := drawn r + (unat threshold - 1)\<rparr>"
    and "\<forall>j<unat n. shares ! j = expected_share q secret (drawn_coefficients r threshold) threshold j"
proof -
  let ?a = "drawn_coefficients r threshold"
  show t: "threshold \<noteq> 0"
    using assms by (auto simp: toprf_create_shares_def)
  have d: "draw_coefficients (nat (uint threshold - 1)) r = (?a, r\<lparr>drawn := drawn r + (unat threshold - 1)\<rparr>)"
    by (simp only: draw_coefficients_eq nat_uint_minus_1 drawn_coefficients_def)
  from assms t d have loop: "shares_loop q secret ?a threshold n 1 shares0 = Inr shares"
    and r': "r' = r\<lparr>drawn := drawn r + (unat threshold - 1)\<rparr>"
    by (auto simp: toprf_create_shares_def split: sum.splits)
  show "r' = r\<lparr>drawn := drawn r + (unat threshold - 1)\<rparr>" by (rule r')
  show n: "unat n < 255"
  proof (rule ccontr)
    assume "\<not> unat n < 255"
    moreover have "unat n < 256" using unsigned_less [of n, where ?'a = nat] by simp
    ultimately have "unat n = unat (255 :: 8 word)" by simp
    hence "n = 255" by (simp only: word_unat_eq_iff)
    with loop show False by (simp add: shares_loop_255)
  qed
  have len: "unat n \<le> length shares0"
  proof (rule ccontr)
    assume c: "\<not> unat n \<le> length shares0"
    hence "1 \<le> unat n" by simp
    hence "shares_loop q secret ?a threshold n 1 shares0 = Inl OutOfBounds"
      using n c by (intro shares_loop_short) simp_all
    with loop show False by simp
  qed
  show "unat n \<le> length shares0" by (rule len)
  have "unat (1 :: 8 word) = 1" by simp
  then obtain shares' where r: "shares_loop q secret ?a threshold n 1 shares0 = Inr shares'"
    and l: "length shares' = length shares0"
    and v: "\<forall>j<length shares0. shares' ! j =
              (if unat (1 :: 8 word) - 1 \<le> j \<and> j < unat n then expected_share q secret ?a threshold j
               else shares0 ! j)"
    using shares_loop_ok [of n 1 shares0 q secret ?a threshold] n len by auto
  from r loop have "shares' = shares" by simp
  with l v len show "length shares = length shares0"
    and "\<forall>j<unat n. shares ! j = expected_share q secret ?a threshold j"
    by auto
qed

lemma share_eval_poly_mod:
  assumes "threshold \<noteq> 0"
  shows "share_eval q secret a threshold x mod q =
           (\<Sum>m<unat threshold. share_poly secret a m * x ^ m) mod q"
proof (cases "2 \<le> unat threshold")
  case True
  thus ?thesis by (simp add: share_eval_poly)
next
  case False
  moreover have "unat threshold \<noteq> 0" using assms by (simp add: unat_eq_0)
  ultimately have t: "unat threshold = 1" by simp
  hence "nat (uint threshold - 1) = 0" by (simp add: nat_uint_minus_1)
  hence "share_eval q secret a threshold x = secret" by (simp add: share_eval_def)
  thus ?thesis by (simp add: t share_poly_def)
qed

lemma lagrange_num_set:
  assumes "distinct P"
  shows "lagrange_num w P = (\<Prod>v\<in>set P - {w}. uint v)"
proof -
  have "distinct (filter (\<lambda>p. p \<noteq> w) P)" using assms by simp
  moreover have "set (filter (\<lambda>p. p \<noteq> w) P) = set P - {w}" by auto
  ultimately show ?thesis
    unfolding lagrange_num_def by (metis prod.distinct_set_conv_list)
qed

lemma lagrange_den_set:
  assumes "distinct P"
  shows "lagrange_den w P = (\<Prod>v\<in>set P - {w}. uint v - uint w)"
proof -
  have "distinct (filter (\<lambda>p. p \<noteq> w) P)" using assms by simp
  moreover have "set (filter (\<lambda>p. p \<noteq> w) P) = set P - {w}" by auto
  ultimately show ?thesis
    unfolding lagrange_den_def by (metis prod.distinct_set_conv_list)
qed

lemma coeff_reconstruct:
  fixes c :: "nat \<Rightarrow> int"
  assumes p: "is_prime q" and big: "255 < q" and d: "distinct P"
    and t: "0 < t" "t \<le> length P"
    and v: "\<forall>w\<in>set P. v w mod q = (\<Sum>m<t. c m * uint w ^ m) mod q"
  shows "(\<Sum>w\<leftarrow>P. coeff q w P * v w) mod q = c 0 mod q"
proof -
  let ?f = "\<lambda>w. \<Sum>m<t. c m * uint w ^ m"
  let ?N = "\<lambda>w. \<Prod>v\<in>set P - {w}. uint v"
  let ?D = "\<lambda>w. \<Prod>v\<in>set P - {w}. uint v - uint w"
  have card: "t \<le> card (set P)" using d t by (simp add: distinct_card)
  have tm: "(coeff q w P * v w) mod q = (?f w * (?N w * ?D w ^ nat (q - 2))) mod q"
    if w: "w \<in> set P" for w
  proof -
    have "(coeff q w P * v w) mod q = ((?D w ^ nat (q - 2) * ?N w) mod q * (v w mod q)) mod q"
      unfolding coeff_eq lagrange_num_set [OF d] lagrange_den_set [OF d]
      by (simp only: mod_mult_right_eq)
    also have "\<dots> = ((?D w ^ nat (q - 2) * ?N w) mod q * (?f w mod q)) mod q"
      using v w by simp
    also have "\<dots> = ((?D w ^ nat (q - 2) * ?N w) * ?f w) mod q"
      by (rule mod_mult_eq)
    finally show ?thesis by (simp only: mult_ac)
  qed
  have "(\<Sum>w\<leftarrow>P. coeff q w P * v w) = (\<Sum>w\<in>set P. coeff q w P * v w)"
    using d by (simp add: sum.distinct_set_conv_list)
  hence "(\<Sum>w\<leftarrow>P. coeff q w P * v w) mod q = (\<Sum>w\<in>set P. (coeff q w P * v w) mod q) mod q"
    by (simp only: mod_sum_eq)
  also have "\<dots> = (\<Sum>w\<in>set P. (?f w * (?N w * ?D w ^ nat (q - 2))) mod q) mod q"
    using tm by simp
  also have "\<dots> = (\<Sum>w\<in>set P. ?f w * (?N w * ?D w ^ nat (q - 2))) mod q"
    by (rule mod_sum_eq)
  also have "\<dots> = c 0 mod q"
    using p big t(1) card by (rule lagrange_mod)
  finally show ?thesis .
qed

lemma shares_reconstruct:
  assumes p: "is_prime q" and big: "255 < q"
    and cs: "toprf_create_shares q r secret n threshold shares0 = Inr (shares, r')"
    and d: "distinct P" and r: "\<forall>w\<in>set P. 1 \<le> w \<and> w \<le> n"
    and t: "unat threshold \<le> length P"
  shows "(\<Sum>w\<leftarrow>P. coeff q w P * share_value (shares ! (unat w - 1))) mod q = secret mod q"
proof -
  let ?a = "drawn_coefficients r threshold"
  note R = create_shares_returns [OF cs]
  have t0: "0 < unat threshold" using R(1) by (simp add: unat_gt_0)
  have "\<forall>w\<in>set P. share_value (shares ! (unat w - 1)) mod q =
          (\<Sum>m<unat threshold. share_poly secret ?a m * uint w ^ m) mod q"
  proof
    fix w assume "w \<in> set P"
    with r have w: "1 \<le> unat w" "unat w \<le> unat n"
      by (auto simp: word_le_nat_alt)
    hence "shares ! (unat w - 1) = expected_share q secret ?a threshold (unat w - 1)"
      using R(6) by simp
    moreover have "int (Suc (unat w - 1)) = uint w" using w by simp
    ultimately have "share_value (shares ! (unat w - 1)) = share_eval q secret ?a threshold (uint w)"
      by (simp add: expected_share_def)
    thus "share_value (shares ! (unat w - 1)) mod q =
          (\<Sum>m<unat threshold. share_poly secret ?a m * uint w ^ m) mod q"
      by (simp only: share_eval_poly_mod [OF R(1)])
  qed
  from coeff_reconstruct [OF p big d t0 t this]
  show ?thesis by (simp add: share_poly_def)
qed

section \<open>toprf_thresholdcombine\<close>

lemma thresholdcombine_loop_sum:
  assumes "0 \<le> a" "a < q"
  shows "thresholdcombine_loop q responses (Point a) =
           Point ((a + sum_list (valid_dlogs q responses)) mod q)"
  using assms
proof (induction responses arbitrary: a)
  case Nil
  then show ?case by (simp add: valid_dlogs_def)
next
  case (Cons r responses)
  show ?case
  proof (cases "ristretto255_is_valid_point q (part_value r)")
    case True
    have "thresholdcombine_loop q (r # responses) (Point a) =
          thresholdcombine_loop q responses (Point ((a + dlog (part_value r)) mod q))"
      using True Cons.prems
      by (simp add: crypto_core_ristretto255_add_def ristretto255_is_valid_point_def)
    also have "\<dots> = Point (((a + dlog (part_value r)) mod q + sum_list (valid_dlogs q responses)) mod q)"
      using Cons.prems by (intro Cons.IH) simp_all
    also have "\<dots> = Point ((a + sum_list (valid_dlogs q (r # responses))) mod q)"
      using True by (simp add: valid_dlogs_def mod_add_left_eq add.assoc)
    finally show ?thesis .
  next
    case False
    have "thresholdcombine_loop q (r # responses) (Point a) =
          thresholdcombine_loop q responses (Point a)"
      using False by (simp add: crypto_core_ristretto255_add_def)
    also have "\<dots> = Point ((a + sum_list (valid_dlogs q responses)) mod q)"
      using Cons.prems by (rule Cons.IH)
    finally show ?thesis using False by (simp add: valid_dlogs_def)
  qed
qed

lemma thresholdcombine_loop_no_group:
  assumes "q \<le> 0"
  shows "thresholdcombine_loop q responses acc = acc"
proof (induction responses)
  case Nil
  show ?case by simp
next
  case (Cons r responses)
  have "\<not> ristretto255_is_valid_point q (part_value r)"
    using assms by (auto simp: ristretto255_is_valid_point_def)
  thus ?case using Cons by (simp add: crypto_core_ristretto255_add_def)
qed

lemma thresholdcombine_sum:
  "toprf_thresholdcombine q responses = Point (sum_list (valid_dlogs q responses) mod q)"
proof (cases "0 < q")
  case True
  thus ?thesis
    using thresholdcombine_loop_sum [of 0 q responses] by (simp add: toprf_thresholdcombine_def)
next
  case False
  hence "valid_dlogs q responses = []"
    by (auto simp: valid_dlogs_def ristretto255_is_valid_point_def filter_empty_conv)
  thus ?thesis
    using False thresholdcombine_loop_no_group [of q responses "Point 0"]
    by (simp add: toprf_thresholdcombine_def)
qed

section \<open>Message sizes\<close>

lemmas size_defs =
  crypto_sign_BYTES_def crypto_sign_PUBLICKEYBYTES_def crypto_generichash_BYTES_def
  crypto_secretbox_xchacha20poly1305_MACBYTES_def crypto_auth_hmacsha256_BYTES_def
  crypto_core_ristretto255_SCALARBYTES_def tpdkg_sessionid_SIZE_def noise_xk_handshake3_SIZE_def

lemma length_le_bytes: "length (le_bytes k v) = k"
  by (induction k arbitrary: v) auto

section \<open>Claims\<close>

text \<open>
  C8. The header \<open>TP_DKG_Message\<close> is the packed sequence sig(64), msgno(1), len(4),
  from(1), to(1), ts(8), sessionid(32): each field starts where the one before it ends,
  the header has 111 bytes, and so has the image of a message without its payload, with
  \<open>len\<close> and \<open>ts\<close> little-endian. Hence \<open>tpdkg_msg0_SIZE\<close> is 111 + 32 + 2 + 32 = 177
  and \<open>tpdkg_msg8_SIZE\<close> is 111 + 64 + 33 + 16 + 32 = 256.
\<close>

theorem tpdkg_header_and_message_sizes:
  "offsets_packed 0 TP_DKG_Message_layout =
     [(''sig'', 0), (''msgno'', 64), (''len'', 65), (''from'', 69), (''to'', 70), (''ts'', 71),
      (''sessionid'', 79), (''data'', 111)]
   \<and> sizeof_packed TP_DKG_Message_layout = 111
   \<and> tpdkg_msg0_SIZE = 111 + 32 + 2 + 32 \<and> tpdkg_msg0_SIZE = 177
   \<and> tpdkg_msg8_SIZE = 111 + 64 + 33 + 16 + 32 \<and> tpdkg_msg8_SIZE = 256
   \<and> (length (msg_sig m) = crypto_sign_BYTES \<and> length (sessionid m) = tpdkg_sessionid_SIZE \<longrightarrow>
        length (TP_DKG_Message_bytes m) = 111 + length (msg_data m)
        \<and> take 64 (TP_DKG_Message_bytes m) = msg_sig m
        \<and> TP_DKG_Message_bytes m ! 64 = msgno m
        \<and> take 4 (drop 65 (TP_DKG_Message_bytes m)) = le_bytes 4 (unat (len m))
        \<and> TP_DKG_Message_bytes m ! 69 = msg_from m
        \<and> TP_DKG_Message_bytes m ! 70 = msg_to m
        \<and> take 8 (drop 71 (TP_DKG_Message_bytes m)) = le_bytes 8 (unat (ts m))
        \<and> take 32 (drop 79 (TP_DKG_Message_bytes m)) = sessionid m
        \<and> drop 111 (TP_DKG_Message_bytes m) = msg_data m)"
proof -
  have sizes: "offsets_packed 0 TP_DKG_Message_layout =
     [(''sig'', 0), (''msgno'', 64), (''len'', 65), (''from'', 69), (''to'', 70), (''ts'', 71),
      (''sessionid'', 79), (''data'', 111)]
   \<and> sizeof_packed TP_DKG_Message_layout = 111
   \<and> tpdkg_msg0_SIZE = 111 + 32 + 2 + 32 \<and> tpdkg_msg0_SIZE = 177
   \<and> tpdkg_msg8_SIZE = 111 + 64 + 33 + 16 + 32 \<and> tpdkg_msg8_SIZE = 256"
    by (simp add: TP_DKG_Message_layout_def TOPRF_Share_layout_def sizeof_packed_def
          tpdkg_msg0_SIZE_def tpdkg_msg8_SIZE_def size_defs)
  have image: "length (TP_DKG_Message_bytes m) = 111 + length (msg_data m)
        \<and> take 64 (TP_DKG_Message_bytes m) = msg_sig m
        \<and> TP_DKG_Message_bytes m ! 64 = msgno m
        \<and> take 4 (drop 65 (TP_DKG_Message_bytes m)) = le_bytes 4 (unat (len m))
        \<and> TP_DKG_Message_bytes m ! 69 = msg_from m
        \<and> TP_DKG_Message_bytes m ! 70 = msg_to m
        \<and> take 8 (drop 71 (TP_DKG_Message_bytes m)) = le_bytes 8 (unat (ts m))
        \<and> take 32 (drop 79 (TP_DKG_Message_bytes m)) = sessionid m
        \<and> drop 111 (TP_DKG_Message_bytes m) = msg_data m"
    if "length (msg_sig m) = crypto_sign_BYTES" "length (sessionid m) = tpdkg_sessionid_SIZE"
    using that
    by (simp add: TP_DKG_Message_bytes_def size_defs length_le_bytes nth_append)
  from sizes image show ?thesis by blast
qed

theorem tpdkg_header_and_message_sizes_witness:
  "length (msg_sig \<lparr>msg_sig = replicate 64 7, msgno = 1, len = 258, msg_from = 0, msg_to = 255,
             ts = 1700000000, sessionid = replicate 32 9, msg_data = [4, 2]\<rparr>) = crypto_sign_BYTES
   \<and> length (sessionid \<lparr>msg_sig = replicate 64 7, msgno = 1, len = 258, msg_from = 0, msg_to = 255,
             ts = 1700000000, sessionid = replicate 32 9, msg_data = [4, 2]\<rparr>) = tpdkg_sessionid_SIZE
   \<and> length (TP_DKG_Message_bytes \<lparr>msg_sig = replicate 64 7, msgno = 1, len = 258, msg_from = 0,
             msg_to = 255, ts = 1700000000, sessionid = replicate 32 9, msg_data = [4, 2]\<rparr>) = 113
   \<and> take 4 (drop 65 (TP_DKG_Message_bytes \<lparr>msg_sig = replicate 64 7, msgno = 1, len = 258,
             msg_from = 0, msg_to = 255, ts = 1700000000, sessionid = replicate 32 9,
             msg_data = [4, 2]\<rparr>)) = [2, 1, 0, 0]"
proof -
  define m :: TP_DKG_Message where
    "m = \<lparr>msg_sig = replicate 64 7, msgno = 1, len = 258, msg_from = 0, msg_to = 255,
             ts = 1700000000, sessionid = replicate 32 9, msg_data = [4, 2]\<rparr>"
  have h: "length (msg_sig m) = crypto_sign_BYTES" "length (sessionid m) = tpdkg_sessionid_SIZE"
    by (simp_all add: size_defs m_def)
  have "le_bytes 4 (unat (258 :: 32 word)) = [2, 1, 0, 0]"
    by code_simp
  hence le: "le_bytes 4 (unat (len m)) = [2, 1, 0, 0]"
    by (simp add: m_def)
  have d: "111 + length (msg_data m) = 113"
    by (simp add: m_def)
  from tpdkg_header_and_message_sizes [of m] h
  have "length (TP_DKG_Message_bytes m) = 111 + length (msg_data m)"
    and "take 4 (drop 65 (TP_DKG_Message_bytes m)) = le_bytes 4 (unat (len m))"
    by blast+
  with h le d show ?thesis
    unfolding m_def by simp
qed

text \<open>
  C9. \<open>toprf_thresholdcombine\<close> has no status and returns a point for every list of
  responses: the identity (the 32 zero bytes) for the empty list, and in general the sum
  in the group of the value fields, which it does not validate (a value field that does
  not decode is passed over by the addition of libsodium, whose status is dropped). The
  index bytes have no part in the result: two lists with the same value fields give the
  same point.
\<close>

theorem thresholdcombine_total_sum:
  "toprf_thresholdcombine q [] = Point 0
   \<and> toprf_thresholdcombine q responses = Point (sum_list (valid_dlogs q responses) mod q)
   \<and> ((\<forall>r\<in>set responses. ristretto255_is_valid_point q (part_value r)) \<longrightarrow>
        toprf_thresholdcombine q responses =
          Point (sum_list (map (dlog \<circ> part_value) responses) mod q))
   \<and> (map part_value responses = map part_value responses' \<longrightarrow>
        toprf_thresholdcombine q responses = toprf_thresholdcombine q responses')"
proof (intro conjI impI)
  show "toprf_thresholdcombine q [] = Point 0"
    by (simp add: toprf_thresholdcombine_def)
  show "toprf_thresholdcombine q responses = Point (sum_list (valid_dlogs q responses) mod q)"
    by (rule thresholdcombine_sum)
next
  assume "\<forall>r\<in>set responses. ristretto255_is_valid_point q (part_value r)"
  hence "filter (ristretto255_is_valid_point q) (map part_value responses) = map part_value responses"
    by (simp add: filter_id_conv)
  thus "toprf_thresholdcombine q responses =
          Point (sum_list (map (dlog \<circ> part_value) responses) mod q)"
    by (simp add: thresholdcombine_sum valid_dlogs_def)
next
  assume "map part_value responses = map part_value responses'"
  thus "toprf_thresholdcombine q responses = toprf_thresholdcombine q responses'"
    by (simp add: thresholdcombine_sum valid_dlogs_def)
qed

theorem thresholdcombine_total_sum_witness:
  "ristretto255_is_valid_point ristretto255_L (Point 5)
   \<and> ristretto255_is_valid_point ristretto255_L (Point (ristretto255_L - 2))
   \<and> map part_value [\<lparr>part_index = 1, part_value = Point 5\<rparr>,
              \<lparr>part_index = 2, part_value = Point (ristretto255_L - 2)\<rparr>]
     = map part_value [\<lparr>part_index = 7, part_value = Point 5\<rparr>,
              \<lparr>part_index = 0, part_value = Point (ristretto255_L - 2)\<rparr>]
   \<and> toprf_thresholdcombine ristretto255_L
        [\<lparr>part_index = 1, part_value = Point 5\<rparr>,
         \<lparr>part_index = 2, part_value = Point (ristretto255_L - 2)\<rparr>] = Point 3
   \<and> toprf_thresholdcombine ristretto255_L
        [\<lparr>part_index = 7, part_value = Point 5\<rparr>,
         \<lparr>part_index = 0, part_value = Point (ristretto255_L - 2)\<rparr>] = Point 3"
proof -
  define rs where "rs = [\<lparr>part_index = 1, part_value = Point 5\<rparr>,
              \<lparr>part_index = 2, part_value = Point (ristretto255_L - 2)\<rparr>]"
  define rs' where "rs' = [\<lparr>part_index = 7, part_value = Point 5\<rparr>,
              \<lparr>part_index = 0, part_value = Point (ristretto255_L - 2)\<rparr>]"
  have h1: "\<forall>r\<in>set rs. ristretto255_is_valid_point ristretto255_L (part_value r)"
    by (simp add: rs_def ristretto255_is_valid_point_def ristretto255_L_def)
  have h2: "map part_value rs = map part_value rs'"
    by (simp add: rs_def rs'_def)
  note T = thresholdcombine_total_sum [of ristretto255_L rs rs']
  from T h1 have "toprf_thresholdcombine ristretto255_L rs =
      Point (sum_list (map (dlog \<circ> part_value) rs) mod ristretto255_L)"
    by blast
  also have "\<dots> = Point 3"
    by (simp add: rs_def ristretto255_L_def)
  finally have v: "toprf_thresholdcombine ristretto255_L rs = Point 3" .
  from T h2 have "toprf_thresholdcombine ristretto255_L rs = toprf_thresholdcombine ristretto255_L rs'"
    by blast
  with v have v': "toprf_thresholdcombine ristretto255_L rs' = Point 3"
    by simp
  from h1 have "ristretto255_is_valid_point ristretto255_L (Point 5)"
    and "ristretto255_is_valid_point ristretto255_L (Point (ristretto255_L - 2))"
    by (simp_all add: rs_def)
  with h2 v v' show ?thesis
    unfolding rs_def rs'_def by blast
qed

text \<open>
  C10. \<open>coeff\<close> returns a scalar for every input and has no way to report an error. An
  entry of \<open>peers\<close> that equals \<open>index\<close> is skipped, so the result is that of \<open>peers\<close>
  without those entries, and putting \<open>index\<close> into \<open>peers\<close> once more changes nothing.
  When \<open>index\<close> is not in \<open>peers\<close> at all, the result is the product, over every entry
  \<open>j\<close> of \<open>peers\<close>, of \<open>j\<close> times the inverse of \<open>j - index\<close>.
\<close>

theorem coeff_total_on_caller_errors:
  assumes "is_prime q" "255 < q"
  shows "0 \<le> coeff q index peers \<and> coeff q index peers < q
     \<and> coeff q index peers = coeff q index (filter (\<lambda>p. p \<noteq> index) peers)
     \<and> coeff q index (pre @ index # post) = coeff q index (pre @ post)
     \<and> (index \<notin> set peers \<longrightarrow>
          coeff q index peers =
            prod_list (map (\<lambda>j. uint j * crypto_core_ristretto255_scalar_invert q (uint j - uint index))
                         peers) mod q
          \<and> (\<forall>j\<in>set peers.
                ((uint j - uint index) * crypto_core_ristretto255_scalar_invert q (uint j - uint index))
                   mod q = 1))"
proof (intro conjI impI ballI)
  show "0 \<le> coeff q index peers" "coeff q index peers < q"
    using assms coeff_range [of q index peers] by simp_all
  show "coeff q index peers = coeff q index (filter (\<lambda>p. p \<noteq> index) peers)"
    by (simp add: coeff_prod_list)
  show "coeff q index (pre @ index # post) = coeff q index (pre @ post)"
    by (simp add: coeff_prod_list)
next
  assume ni: "index \<notin> set peers"
  hence "filter (\<lambda>p. p \<noteq> index) peers = peers"
    by (induction peers) auto
  thus "coeff q index peers =
          prod_list (map (\<lambda>j. uint j * crypto_core_ristretto255_scalar_invert q (uint j - uint index))
                       peers) mod q"
    by (simp add: coeff_prod_list)
  fix j assume "j \<in> set peers"
  with ni have "j \<noteq> index" by auto
  thus "((uint j - uint index) * crypto_core_ristretto255_scalar_invert q (uint j - uint index))
          mod q = 1"
    by (rule invert_is_inverse [OF assms])
qed

theorem coeff_total_on_caller_errors_witness:
  "is_prime 257 \<and> (255::int) < 257 \<and> (3::8 word) \<notin> set [1, 2, 2]
   \<and> coeff 257 3 [1, 2, 2] = 255
   \<and> coeff 257 3 [1, 2, 2] = coeff 257 3 (filter (\<lambda>p. p \<noteq> 3) [1, 2, 2])
   \<and> coeff 257 3 ([1] @ 3 # [2, 2]) = coeff 257 3 ([1] @ [2, 2])
   \<and> coeff 257 3 [1, 2, 2] =
         prod_list (map (\<lambda>j. uint j * crypto_core_ristretto255_scalar_invert 257 (uint j - uint (3::8 word)))
                      [1, 2, 2 :: 8 word]) mod 257"
proof -
  have p: "is_prime 257"
    unfolding is_prime_def by code_simp
  have b: "(255::int) < 257"
    by simp
  have v: "coeff 257 3 [1, 2, 2] = 255"
    by code_simp
  have ni: "(3::8 word) \<notin> set [1, 2, 2]"
    by simp
  note T = coeff_total_on_caller_errors [OF p b, of 3 "[1, 2, 2]" "[1]" "[2, 2]"]
  from T have t2: "coeff 257 3 [1, 2, 2] = coeff 257 3 (filter (\<lambda>p. p \<noteq> 3) [1, 2, 2])"
    by blast
  from T have t3: "coeff 257 3 ([1] @ 3 # [2, 2]) = coeff 257 3 ([1] @ [2, 2])"
    by blast
  from T ni have t4: "coeff 257 3 [1, 2, 2] =
         prod_list (map (\<lambda>j. uint j * crypto_core_ristretto255_scalar_invert 257 (uint j - uint (3::8 word)))
                      [1, 2, 2 :: 8 word]) mod 257"
    by blast
  show ?thesis
    by (intro conjI p b ni v t2 t3 t4)
qed

end
